theory Spec2Isabelle
  imports Main "HOL-Library.Word"
begin

section \<open>Data model of the store (src/stores/app.ts)\<close>

text \<open>
  The status of a tree node is one of four change kinds or \<open>null\<close>; the status of a
  \<open>FileEntry\<close> has the fifth value \<open>'Unchanged'\<close> besides.
\<close>

datatype ChangeStatus = Added | Deleted | Modified | Renamed

datatype FileStatus = Changed ChangeStatus | Unchanged

record FileEntry =
  path :: string
  name :: string
  status :: FileStatus
  is_dir :: bool
  left_path :: "string option"
  right_path :: "string option"

datatype FileTreeNode =
  FileTreeNode
    (node_name: string)
    (node_path: string)
    (node_status: "ChangeStatus option")
    (node_is_dir: bool)
    (node_children: "FileTreeNode list")
    (node_left_path: "string option")
    (node_right_path: "string option")

record DiffOptions =
  side_by_side :: bool
  line_numbers :: bool
  collapsed :: bool
  show_whitespace :: bool

record DiffResult =
  html :: string
  has_changes :: bool
  hunk_count :: int
  left_html :: "string option"
  right_html :: "string option"

text \<open>The refs of \<open>useAppStore\<close>, one field each.\<close>

record app_state =
  leftDir :: "string option"
  rightDir :: "string option"
  fileTree :: "FileTreeNode list"
  files :: "FileEntry list"
  totalChanges :: int
  addedCount :: int
  deletedCount :: int
  modifiedCount :: int
  selectedFile :: "FileEntry option"
  currentDiff :: "DiffResult option"
  isLoadingDiff :: bool
  diffError :: "string option"
  viewOptions :: DiffOptions
  deltaInstalled :: bool
  isLoadingTree :: bool
  treeError :: "string option"

definition init_store :: app_state where
  "init_store =
     \<lparr> leftDir = None, rightDir = None, fileTree = [], files = [],
       totalChanges = 0, addedCount = 0, deletedCount = 0, modifiedCount = 0,
       selectedFile = None, currentDiff = None, isLoadingDiff = False, diffError = None,
       viewOptions = \<lparr> side_by_side = True, line_numbers = True, collapsed = True,
                       show_whitespace = False \<rparr>,
       deltaInstalled = True, isLoadingTree = False, treeError = None \<rparr>"

subsection \<open>Computed values\<close>

text \<open>
  \<open>flattenTree\<close>: the loop over \<open>nodes\<close> pushes, for a directory, the flattening of its
  children, and for a file with a truthy status (a non-empty string, so: not \<open>null\<close>) one
  entry; a file whose status is \<open>null\<close> contributes nothing.
\<close>

function flattenTree :: "FileTreeNode list \<Rightarrow> FileEntry list" where
  "flattenTree [] = []"
| "flattenTree (FileTreeNode nm p st d ch l r # nodes) =
     (if d then flattenTree ch
      else (case st of
              Some c \<Rightarrow> [\<lparr> path = p, name = nm, status = Changed c, is_dir = False,
                          left_path = l, right_path = r \<rparr>]
            | None \<Rightarrow> []))
     @ flattenTree nodes"
  by pat_completeness auto
termination
  by (relation "measure (size_list size)") auto

definition changedFiles :: "app_state \<Rightarrow> FileEntry list" where
  "changedFiles s = flattenTree (fileTree s)"

text \<open>\<open>Array.prototype.findIndex\<close>: the first index whose element passes, or \<open>-1\<close>.\<close>

fun findIndex :: "('a \<Rightarrow> bool) \<Rightarrow> 'a list \<Rightarrow> int" where
  "findIndex P [] = - 1"
| "findIndex P (x # xs) =
     (if P x then 0 else (let i = findIndex P xs in if i < 0 then - 1 else i + 1))"

text \<open>Reading \<open>xs[i]\<close>: \<open>undefined\<close> out of range, which the store treats as no file.\<close>

definition at_index :: "'a list \<Rightarrow> int \<Rightarrow> 'a option" where
  "at_index xs i = (if 0 \<le> i \<and> i < int (length xs) then Some (xs ! nat i) else None)"

definition hasSelection :: "app_state \<Rightarrow> bool" where
  "hasSelection s = (selectedFile s \<noteq> None)"

definition hasChanges :: "app_state \<Rightarrow> bool" where
  "hasChanges s = (totalChanges s > 0)"

definition currentFileIndex :: "app_state \<Rightarrow> int" where
  "currentFileIndex s =
     (case selectedFile s of
        None \<Rightarrow> - 1
      | Some sel \<Rightarrow> findIndex (\<lambda>f. path f = path sel) (changedFiles s))"

definition canGoPrev :: "app_state \<Rightarrow> bool" where
  "canGoPrev s = (currentFileIndex s > 0)"

definition canGoNext :: "app_state \<Rightarrow> bool" where
  "canGoNext s = (currentFileIndex s < int (length (changedFiles s)) - 1)"

subsection \<open>Actions\<close>

definition setDirectories :: "string \<Rightarrow> string \<Rightarrow> app_state \<Rightarrow> app_state" where
  "setDirectories left right s = s\<lparr> leftDir := Some left, rightDir := Some right \<rparr>"

definition setFileTree ::
  "FileTreeNode list \<Rightarrow> FileEntry list \<Rightarrow> int \<Rightarrow> int \<Rightarrow> int \<Rightarrow> int \<Rightarrow> app_state \<Rightarrow> app_state"
where
  "setFileTree tree fileList total_n added deleted modified s =
     s\<lparr> fileTree := tree, files := fileList, totalChanges := total_n, addedCount := added,
        deletedCount := deleted, modifiedCount := modified, treeError := None,
        isLoadingTree := False \<rparr>"

definition selectFile :: "FileEntry option \<Rightarrow> app_state \<Rightarrow> app_state" where
  "selectFile file s = s\<lparr> selectedFile := file, currentDiff := None, diffError := None \<rparr>"

definition setDiff :: "DiffResult \<Rightarrow> app_state \<Rightarrow> app_state" where
  "setDiff result s = s\<lparr> currentDiff := Some result, isLoadingDiff := False, diffError := None \<rparr>"

definition setDiffLoading :: "bool \<Rightarrow> app_state \<Rightarrow> app_state" where
  "setDiffLoading loading s = s\<lparr> isLoadingDiff := loading \<rparr>"

definition setDiffError :: "string \<Rightarrow> app_state \<Rightarrow> app_state" where
  "setDiffError error s = s\<lparr> diffError := Some error, isLoadingDiff := False, currentDiff := None \<rparr>"

definition setTreeLoading :: "bool \<Rightarrow> app_state \<Rightarrow> app_state" where
  "setTreeLoading loading s = s\<lparr> isLoadingTree := loading \<rparr>"

definition setTreeError :: "string \<Rightarrow> app_state \<Rightarrow> app_state" where
  "setTreeError error s = s\<lparr> treeError := Some error, isLoadingTree := False \<rparr>"

text \<open>The keys of \<open>DiffOptions\<close>; every one of them holds a boolean.\<close>

datatype option_key = Side_by_side | Line_numbers | Collapsed | Show_whitespace

fun get_option :: "option_key \<Rightarrow> DiffOptions \<Rightarrow> bool" where
  "get_option Side_by_side opts = side_by_side opts"
| "get_option Line_numbers opts = line_numbers opts"
| "get_option Collapsed opts = collapsed opts"
| "get_option Show_whitespace opts = show_whitespace opts"

fun put_option :: "option_key \<Rightarrow> bool \<Rightarrow> DiffOptions \<Rightarrow> DiffOptions" where
  "put_option Side_by_side v opts = opts\<lparr> side_by_side := v \<rparr>"
| "put_option Line_numbers v opts = opts\<lparr> line_numbers := v \<rparr>"
| "put_option Collapsed v opts = opts\<lparr> collapsed := v \<rparr>"
| "put_option Show_whitespace v opts = opts\<lparr> show_whitespace := v \<rparr>"

definition setViewOption :: "option_key \<Rightarrow> bool \<Rightarrow> app_state \<Rightarrow> app_state" where
  "setViewOption key v s = s\<lparr> viewOptions := put_option key v (viewOptions s) \<rparr>"

text \<open>
  \<open>toggleViewOption\<close>: the guard \<open>typeof viewOptions.value[key] === 'boolean'\<close> holds for
  each of the four keys, so the assignment always runs.
\<close>

definition toggleViewOption :: "option_key \<Rightarrow> app_state \<Rightarrow> app_state" where
  "toggleViewOption key s =
     s\<lparr> viewOptions := put_option key (\<not> get_option key (viewOptions s)) (viewOptions s) \<rparr>"

definition setDeltaInstalled :: "bool \<Rightarrow> app_state \<Rightarrow> app_state" where
  "setDeltaInstalled installed s = s\<lparr> deltaInstalled := installed \<rparr>"

definition selectPrevFile :: "app_state \<Rightarrow> app_state" where
  "selectPrevFile s =
     (if canGoPrev s then selectFile (at_index (changedFiles s) (currentFileIndex s - 1)) s
      else s)"

definition selectNextFile :: "app_state \<Rightarrow> app_state" where
  "selectNextFile s =
     (if canGoNext s then selectFile (at_index (changedFiles s) (currentFileIndex s + 1)) s
      else s)"

definition selectFirstFile :: "app_state \<Rightarrow> app_state" where
  "selectFirstFile s =
     (if length (changedFiles s) > 0 then selectFile (at_index (changedFiles s) 0) s else s)"

section \<open>Hunk detection in the diff view (DiffView component)\<close>

text \<open>
  \<open>innerHTML\<close> is a JavaScript string: a sequence of UTF-16 code units. The separator
  pattern is made of U+2500 (box drawings light horizontal), a single code unit.
\<close>

type_synonym code_unit = "16 word"

type_synonym js_string = "code_unit list"

definition ascii :: "string \<Rightarrow> js_string" where
  "ascii s = map of_char s"

definition box_horizontal :: code_unit where
  "box_horizontal = 0x2500"

fun startsWith :: "'a list \<Rightarrow> 'a list \<Rightarrow> bool" where
  "startsWith s [] = True"
| "startsWith [] (p # ps) = False"
| "startsWith (c # cs) (p # ps) = (c = p \<and> startsWith cs ps)"

text \<open>\<open>String.prototype.includes\<close>: the pattern occurs at some position.\<close>

fun js_includes :: "'a list \<Rightarrow> 'a list \<Rightarrow> bool" where
  "js_includes [] p = startsWith [] p"
| "js_includes (c # cs) p = (startsWith (c # cs) p \<or> js_includes cs p)"

definition isHunkSep :: "js_string \<Rightarrow> bool" where
  "isHunkSep innerHTML =
     (js_includes innerHTML (replicate 3 box_horizontal)
      \<or> js_includes innerHTML (replicate 4 box_horizontal))"

definition isChangedLine :: "js_string \<Rightarrow> bool" where
  "isChangedLine innerHTML =
     (js_includes innerHTML (ascii ''background'') \<or> js_includes innerHTML (ascii ''bg-''))"

text \<open>
  The body of the \<open>forEach\<close> in \<open>findHunks\<close>. The loop state is the array \<open>hunks\<close> and
  the flag \<open>inChange\<close>; an element of \<open>allLines\<close> is identified by its position in the
  node list, and comes with its \<open>innerHTML\<close>.
\<close>

definition scan_line :: "nat list \<times> bool \<Rightarrow> nat \<times> js_string \<Rightarrow> nat list \<times> bool" where
  "scan_line acc line =
     (case acc of (hunks, inChange) \<Rightarrow>
      case line of (i, innerHTML) \<Rightarrow>
        if isHunkSep innerHTML then (hunks @ [i], False)
        else if isChangedLine innerHTML \<and> \<not> inChange then (hunks @ [i], True)
        else if \<not> isChangedLine innerHTML then (hunks, False)
        else (hunks, inChange))"

definition scan_lines :: "js_string list \<Rightarrow> nat list" where
  "scan_lines allLines = fst (foldl scan_line ([], False) (enumerate 0 allLines))"

record diff_view =
  hunkElements :: "nat list option"
  currentHunkIndex :: int

text \<open>
  \<open>findHunks\<close>: the container is \<open>None\<close> while the template ref is unset, else the
  \<open>innerHTML\<close> of its \<open>.diff-line\<close> elements in document order.
\<close>

definition findHunks :: "js_string list option \<Rightarrow> diff_view \<Rightarrow> diff_view" where
  "findHunks diffContainer v =
     (case diffContainer of
        None \<Rightarrow> v
      | Some allLines \<Rightarrow>
          (let hunks = scan_lines allLines
           in v\<lparr> hunkElements := (if length hunks > 0 then Some hunks else None) \<rparr>))"

section \<open>The composable useDiff and the components that call it\<close>

text \<open>
  A call of \<open>invoke\<close> returns a promise that the backend settles later: it resolves with a
  value or rejects with an error, whose \<open>String(error)\<close> is what the handlers keep.
\<close>

datatype 'a outcome = Resolved 'a | Rejected string

record Request =
  leftPath :: "string option"
  rightPath :: "string option"
  options :: DiffOptions

record FileTreeResult =
  tr_tree :: "FileTreeNode list"
  tr_files :: "FileEntry list"
  tr_total_changes :: int
  tr_added :: int
  tr_deleted :: int
  tr_modified :: int

text \<open>
  The running application: the store, the \<open>get_diff\<close> invocations still awaiting their
  result (oldest first; each one suspends a \<open>loadDiff\<close> at its \<open>await\<close>), and the number
  of suspended \<open>loadFileTree\<close> and \<open>checkDeltaInstalled\<close> calls.

  \<open>sel_index\<close> records object identity, which decides whether a Vue watcher runs:
  \<open>Some j\<close> when the object held by \<open>selectedFile\<close> is the very element \<open>j\<close> of the
  cached \<open>changedFiles\<close> array, \<open>None\<close> when it is any other object.

  \<open>last_settled\<close> is bookkeeping of the model and no variable of the program: the
  invocation whose settlement was stored last, with what it delivered.

  \<open>showDirectoryPicker\<close> is the ref of the root component. While it is true the
  template renders the directory picker and none of the file tree, the toolbar and the
  diff view: they are unmounted, so there is nothing to click, the key handler of the
  diff view is removed and its watcher of \<open>selectedFile\<close> is stopped.
\<close>

record sys =
  store :: app_state
  diff_calls :: "Request list"
  tree_calls :: nat
  check_calls :: nat
  sel_index :: "nat option"
  last_settled :: "(Request \<times> DiffResult outcome) option"
  showDirectoryPicker :: bool

definition init_sys :: sys where
  "init_sys = \<lparr> store = init_store, diff_calls = [], tree_calls = 0, check_calls = 0,
                 sel_index = None, last_settled = None, showDirectoryPicker = True \<rparr>"

definition get_diff_request :: "FileEntry \<Rightarrow> app_state \<Rightarrow> Request" where
  "get_diff_request file st =
     \<lparr> leftPath = left_path file, rightPath = right_path file, options = viewOptions st \<rparr>"

text \<open>\<open>loadDiff\<close> up to its \<open>await\<close>, and its continuation once the promise settles.\<close>

definition loadDiff_call :: "FileEntry \<Rightarrow> sys \<Rightarrow> sys" where
  "loadDiff_call file y =
     (let st = selectFile (Some file) (setDiffLoading True (store y))
      in y\<lparr> store := st, diff_calls := diff_calls y @ [get_diff_request file st] \<rparr>)"

definition loadDiff_settle :: "DiffResult outcome \<Rightarrow> app_state \<Rightarrow> app_state" where
  "loadDiff_settle out st =
     (case out of
        Resolved result \<Rightarrow> setDiff result st
      | Rejected error \<Rightarrow> setDiffError error st)"

definition refreshDiff :: "sys \<Rightarrow> sys" where
  "refreshDiff y =
     (case selectedFile (store y) of
        None \<Rightarrow> y
      | Some file \<Rightarrow> loadDiff_call file y)"

definition toggleSideBySide :: "sys \<Rightarrow> sys" where
  "toggleSideBySide y = refreshDiff (y\<lparr> store := toggleViewOption Side_by_side (store y) \<rparr>)"

definition toggleLineNumbers :: "sys \<Rightarrow> sys" where
  "toggleLineNumbers y = refreshDiff (y\<lparr> store := toggleViewOption Line_numbers (store y) \<rparr>)"

definition toggleCollapsed :: "sys \<Rightarrow> sys" where
  "toggleCollapsed y = refreshDiff (y\<lparr> store := toggleViewOption Collapsed (store y) \<rparr>)"

definition toggleWhitespace :: "sys \<Rightarrow> sys" where
  "toggleWhitespace y = refreshDiff (y\<lparr> store := toggleViewOption Show_whitespace (store y) \<rparr>)"

fun toggle_of :: "option_key \<Rightarrow> sys \<Rightarrow> sys" where
  "toggle_of Side_by_side = toggleSideBySide"
| "toggle_of Line_numbers = toggleLineNumbers"
| "toggle_of Collapsed = toggleCollapsed"
| "toggle_of Show_whitespace = toggleWhitespace"

text \<open>
  \<open>checkDeltaInstalled\<close> once \<open>invoke('check_delta')\<close> has settled: what its own promise
  settles with (\<open>Inl\<close> a rejection, \<open>Inr\<close> the returned boolean) and the store.
\<close>

definition checkDeltaInstalled ::
  "bool outcome \<Rightarrow> app_state \<Rightarrow> (string + bool) \<times> app_state"
where
  "checkDeltaInstalled out st =
     (case out of
        Resolved installed \<Rightarrow> (Inr installed, setDeltaInstalled installed st)
      | Rejected error \<Rightarrow> (Inr False, setDeltaInstalled False st))"

text \<open>\<open>loadFileTree\<close> up to its \<open>await\<close>.\<close>

definition loadFileTree_call :: "string \<Rightarrow> string \<Rightarrow> app_state \<Rightarrow> app_state" where
  "loadFileTree_call l r st = setDirectories l r (setTreeLoading True st)"

text \<open>\<open>handleFileClick\<close> of the file tree: the entry is a new object.\<close>

definition handleFileClick :: "FileTreeNode \<Rightarrow> sys \<Rightarrow> sys" where
  "handleFileClick node y =
     (if \<not> node_is_dir node then
        loadDiff_call
          \<lparr> path = node_path node, name = node_name node,
            status = (case node_status node of Some c \<Rightarrow> Changed c | None \<Rightarrow> Unchanged),
            is_dir = False, left_path = node_left_path node,
            right_path = node_right_path node \<rparr>
          (y\<lparr> sel_index := None \<rparr>)
      else y)"

text \<open>
  The callback of \<open>watch(() => store.selectedFile, ...)\<close> in the diff view, up to the
  \<open>await\<close> inside \<open>loadDiff\<close>; what follows it touches the view's hunk list only.
\<close>

definition watch_selectedFile :: "sys \<Rightarrow> sys" where
  "watch_selectedFile y =
     (case selectedFile (store y) of
        Some file \<Rightarrow> loadDiff_call file y
      | None \<Rightarrow> y)"

text \<open>
  After a handler has stored element \<open>j\<close> of \<open>changedFiles\<close> in \<open>selectedFile\<close>: that is
  another object than before, and the watcher runs, unless the ref already held that
  very element, or the diff view is unmounted and there is no watcher.
\<close>

definition selected_element :: "nat \<Rightarrow> sys \<Rightarrow> sys" where
  "selected_element j y =
     (if sel_index y = Some j \<or> showDirectoryPicker y then y\<lparr> sel_index := Some j \<rparr>
      else watch_selectedFile (y\<lparr> sel_index := Some j \<rparr>))"

text \<open>
  The continuation of \<open>loadFileTree\<close>. \<open>setFileTree\<close> replaces the tree, so
  \<open>changedFiles\<close> is computed anew and holds new objects; \<open>selectFirstFile\<close> stores the
  first of them if there is one, and the watcher runs if the diff view is mounted.
\<close>

definition loadFileTree_settle :: "FileTreeResult outcome \<Rightarrow> sys \<Rightarrow> sys" where
  "loadFileTree_settle out y =
     (case out of
        Rejected error \<Rightarrow> y\<lparr> store := setTreeError error (store y) \<rparr>
      | Resolved result \<Rightarrow>
          (let st = setFileTree (tr_tree result) (tr_files result) (tr_total_changes result)
                      (tr_added result) (tr_deleted result) (tr_modified result) (store y);
               y1 = y\<lparr> store := st, sel_index := None \<rparr>
           in if length (tr_files result) > 0
              then (let y2 = y1\<lparr> store := selectFirstFile st \<rparr>
                    in if length (changedFiles st) > 0 then selected_element 0 y2 else y2)
              else y1))"

text \<open>
  \<open>handleLoadDirs\<close> of the root component, up to the \<open>await\<close> in \<open>loadFileTree\<close>: with
  both inputs non-empty it hides the picker, which mounts the file tree, the toolbar and
  the diff view, and starts loading the tree. \<open>initialize\<close> does the same with the
  directories of the command line. \<open>handleShowPicker\<close> shows the picker again.
\<close>

definition handleLoadDirs :: "string \<Rightarrow> string \<Rightarrow> sys \<Rightarrow> sys" where
  "handleLoadDirs l r y =
     (if l \<noteq> [] \<and> r \<noteq> []
      then y\<lparr> showDirectoryPicker := False, store := loadFileTree_call l r (store y),
              tree_calls := Suc (tree_calls y) \<rparr>
      else y)"

definition handleShowPicker :: "sys \<Rightarrow> sys" where
  "handleShowPicker y = y\<lparr> showDirectoryPicker := True \<rparr>"

text \<open>
  What can happen to the running application. A click is a click on a tree item;
  \<open>KeyJ\<close> and \<open>KeyK\<close> are the keys of \<open>handleKeydown\<close>; \<open>DiffSettled i out\<close> settles the
  \<open>i\<close>-th pending \<open>get_diff\<close> invocation with \<open>out\<close>; \<open>ShowPicker\<close> is a click on the
  button that reopens the directory picker.
\<close>

datatype event =
    Click FileTreeNode
  | KeyJ
  | KeyK
  | Toggle option_key
  | DiffSettled nat "DiffResult outcome"
  | LoadTree string string
  | TreeSettled "FileTreeResult outcome"
  | CheckDelta
  | DeltaSettled "bool outcome"
  | ShowPicker

text \<open>
  One event with everything that runs before the next one: the handler, then the watcher
  of \<open>selectedFile\<close> if the ref now holds another object than before. A click on a file
  always stores a new object. A key stores the element of \<open>changedFiles\<close> before or after
  the current index. A toggle stores the object the ref already holds. Clicks on the tree
  and the toolbar and the keys reach their handlers only while the picker is hidden.
\<close>

fun step :: "event \<Rightarrow> sys \<Rightarrow> sys" where
  "step (Click node) y =
     (if showDirectoryPicker y then y
      else if node_is_dir node then handleFileClick node y
      else watch_selectedFile (handleFileClick node y))"
| "step KeyJ y =
     (if showDirectoryPicker y then y
      else if canGoNext (store y)
      then selected_element (nat (currentFileIndex (store y) + 1))
             (y\<lparr> store := selectNextFile (store y) \<rparr>)
      else y)"
| "step KeyK y =
     (if showDirectoryPicker y then y
      else if canGoPrev (store y)
      then selected_element (nat (currentFileIndex (store y) - 1))
             (y\<lparr> store := selectPrevFile (store y) \<rparr>)
      else y)"
| "step (Toggle key) y = (if showDirectoryPicker y then y else toggle_of key y)"
| "step (DiffSettled i out) y =
     (if i < length (diff_calls y)
      then y\<lparr> store := loadDiff_settle out (store y),
              diff_calls := take i (diff_calls y) @ drop (Suc i) (diff_calls y),
              last_settled := Some (diff_calls y ! i, out) \<rparr>
      else y)"
| "step (LoadTree l r) y = handleLoadDirs l r y"
| "step (TreeSettled out) y =
     (if tree_calls y > 0
      then loadFileTree_settle out (y\<lparr> tree_calls := tree_calls y - 1 \<rparr>)
      else y)"
| "step CheckDelta y = y\<lparr> check_calls := Suc (check_calls y) \<rparr>"
| "step (DeltaSettled out) y =
     (if check_calls y > 0
      then y\<lparr> store := snd (checkDeltaInstalled out (store y)),
              check_calls := check_calls y - 1 \<rparr>
      else y)"
| "step ShowPicker y = (if showDirectoryPicker y then y else handleShowPicker y)"

definition run :: "event list \<Rightarrow> sys \<Rightarrow> sys" where
  "run evs y = foldl (\<lambda>y e. step e y) y evs"

text \<open>Renders complete in the order of their requests: always the oldest pending one.\<close>

fun oldest_first :: "event \<Rightarrow> bool" where
  "oldest_first (DiffSettled i out) = (i = 0)"
| "oldest_first e = True"

text \<open>
  Along a run, every result of \<open>get_file_tree\<close> arrives while the picker is hidden, so
  while the diff view is mounted.
\<close>

fun tree_result :: "event \<Rightarrow> bool" where
  "tree_result (TreeSettled out) = True"
| "tree_result e = False"

fun trees_arrive_mounted :: "event list \<Rightarrow> sys \<Rightarrow> bool" where
  "trees_arrive_mounted [] y = True"
| "trees_arrive_mounted (e # evs) y =
     ((if tree_result e then \<not> showDirectoryPicker y else True)
      \<and> trees_arrive_mounted evs (step e y))"

section \<open>Reference definitions for the properties\<close>

text \<open>
  The file tree in display order: a tree item shows its own row, then, for a directory,
  the rows of its children; a file is a leaf of the displayed tree.
\<close>

function display_order :: "FileTreeNode list \<Rightarrow> FileTreeNode list" where
  "display_order [] = []"
| "display_order (FileTreeNode nm p st d ch l r # nodes) =
     FileTreeNode nm p st d ch l r # (if d then display_order ch else [])
     @ display_order nodes"
  by pat_completeness auto
termination
  by (relation "measure (size_list size)") auto

text \<open>The entry of a file node whose status is not \<open>null\<close>; no entry for any other node.\<close>

definition entry_of_node :: "FileTreeNode \<Rightarrow> FileEntry option" where
  "entry_of_node node =
     (if node_is_dir node then None
      else map_option
             (\<lambda>c. \<lparr> path = node_path node, name = node_name node, status = Changed c,
                    is_dir = False, left_path = node_left_path node,
                    right_path = node_right_path node \<rparr>)
             (node_status node))"

text \<open>Every node of the tree, parents before children, whatever the kind of the parent.\<close>

function all_nodes :: "FileTreeNode list \<Rightarrow> FileTreeNode list" where
  "all_nodes [] = []"
| "all_nodes (FileTreeNode nm p st d ch l r # nodes) =
     FileTreeNode nm p st d ch l r # all_nodes ch @ all_nodes nodes"
  by pat_completeness auto
termination
  by (relation "measure (size_list size)") auto

definition files_are_leaves :: "FileTreeNode list \<Rightarrow> bool" where
  "files_are_leaves nodes =
     list_all (\<lambda>node. node_is_dir node \<or> node_children node = []) (all_nodes nodes)"

text \<open>How the scan classifies a line: the separator test comes first.\<close>

datatype line_kind = Separator | ChangedLine | ContextLine

definition kind_of :: "js_string \<Rightarrow> line_kind" where
  "kind_of innerHTML =
     (if isHunkSep innerHTML then Separator
      else if isChangedLine innerHTML then ChangedLine
      else ContextLine)"

text \<open>
  Where a hunk starts, in terms of the kinds of the lines: at a separator, and at a
  changed line that is the first line or comes after a line that is not a changed line.
\<close>

definition hunk_start :: "js_string list \<Rightarrow> nat \<Rightarrow> bool" where
  "hunk_start ls i =
     (kind_of (ls ! i) = Separator
      \<or> (kind_of (ls ! i) = ChangedLine
          \<and> (i = 0 \<or> kind_of (ls ! (i - 1)) \<noteq> ChangedLine)))"

text \<open>
  What the template of the diff view shows as the diff: the branches for loading, for an
  error (a truthy, so non-empty, message) and for no selection come before the diff.
\<close>

definition displayed_diff :: "app_state \<Rightarrow> DiffResult option" where
  "displayed_diff st =
     (if isLoadingDiff st then None
      else if diffError st \<noteq> None \<and> diffError st \<noteq> Some [] then None
      else if selectedFile st = None then None
      else currentDiff st)"

text \<open>
  The invariant behind the display when renders complete in the order of their requests:
  the newest pending request is the one for the selected file with the current options;
  with nothing pending, a stored result was delivered for that request; and \<open>sel_index\<close>
  names the selected object.
\<close>

definition display_inv :: "sys \<Rightarrow> bool" where
  "display_inv y =
     ((diff_calls y \<noteq> [] \<longrightarrow>
         (\<exists>f. selectedFile (store y) = Some f
              \<and> last (diff_calls y) = get_diff_request f (store y)))
      \<and> (diff_calls y = [] \<longrightarrow>
           (\<forall>r. currentDiff (store y) = Some r \<longrightarrow>
              (\<exists>f. selectedFile (store y) = Some f
                   \<and> last_settled y = Some (get_diff_request f (store y), Resolved r))))
      \<and> (\<forall>j. sel_index y = Some j \<longrightarrow>
             j < length (changedFiles (store y))
             \<and> selectedFile (store y) = Some (changedFiles (store y) ! j)))"

subsection \<open>Example data\<close>

definition node_a :: FileTreeNode where
  "node_a = FileTreeNode ''a.txt'' ''a.txt'' (Some Modified) False []
              (Some ''/l/a.txt'') (Some ''/r/a.txt'')"

definition node_b :: FileTreeNode where
  "node_b = FileTreeNode ''b.txt'' ''b.txt'' (Some Added) False [] None (Some ''/r/b.txt'')"

definition entry_a :: FileEntry where
  "entry_a = \<lparr> path = ''a.txt'', name = ''a.txt'', status = Changed Modified, is_dir = False,
               left_path = Some ''/l/a.txt'', right_path = Some ''/r/a.txt'' \<rparr>"

definition entry_b :: FileEntry where
  "entry_b = \<lparr> path = ''b.txt'', name = ''b.txt'', status = Changed Added, is_dir = False,
               left_path = None, right_path = Some ''/r/b.txt'' \<rparr>"

definition entry_gone :: FileEntry where
  "entry_gone = \<lparr> path = ''gone.txt'', name = ''gone.txt'', status = Unchanged, is_dir = False,
                  left_path = Some ''/l/gone.txt'', right_path = Some ''/r/gone.txt'' \<rparr>"

definition tree_ab :: FileTreeResult where
  "tree_ab = \<lparr> tr_tree = [node_a, node_b], tr_files = [entry_a, entry_b],
               tr_total_changes = 2, tr_added = 1, tr_deleted = 0, tr_modified = 1 \<rparr>"

text \<open>The same two files with \<open>b.txt\<close> first.\<close>

definition tree_ba :: FileTreeResult where
  "tree_ba = \<lparr> tr_tree = [node_b, node_a], tr_files = [entry_b, entry_a],
               tr_total_changes = 2, tr_added = 1, tr_deleted = 0, tr_modified = 1 \<rparr>"

definition diff_a :: DiffResult where
  "diff_a = \<lparr> html = ''diff of a'', has_changes = True, hunk_count = 1,
              left_html = None, right_html = None \<rparr>"

definition diff_b :: DiffResult where
  "diff_b = \<lparr> html = ''diff of b'', has_changes = True, hunk_count = 1,
              left_html = None, right_html = None \<rparr>"

text \<open>
  The application after the tree of two changed files has arrived: \<open>a.txt\<close> is selected
  and its render is pending.
\<close>

definition loaded_ab :: sys where
  "loaded_ab = run [LoadTree ''/l'' ''/r'', TreeSettled (Resolved tree_ab)] init_sys"

definition ex_lines :: "js_string list" where
  "ex_lines = [ascii ''ctx'', ascii ''bg-1'', ascii ''bg-2'', ascii ''ctx'',
               replicate 4 box_horizontal, ascii ''bg-3'']"

text \<open>A changed line whose text holds three box-drawing characters.\<close>

definition banner_line :: js_string where
  "banner_line = ascii ''bg-add '' @ replicate 3 box_horizontal"

section \<open>Properties of the store\<close>

subsection \<open>Flattening the tree\<close>

lemma map_filter_app:
  "List.map_filter f (xs @ ys) = List.map_filter f xs @ List.map_filter f ys"
  by (simp add: List.map_filter_def)

lemma flattenTree_display_order:
  "flattenTree nodes = List.map_filter entry_of_node (display_order nodes)"
proof (induction nodes rule: flattenTree.induct)
  case 1
  show ?case by (simp add: map_filter_simps)
next
  case (2 nm p st d ch l r nodes)
  then show ?case
    by (cases st) (simp_all add: map_filter_simps map_filter_app entry_of_node_def)
qed

lemma display_order_all_nodes:
  "files_are_leaves nodes \<Longrightarrow> display_order nodes = all_nodes nodes"
proof (induction nodes rule: display_order.induct)
  case 1
  show ?case by simp
next
  case (2 nm p st d ch l r nodes)
  from "2.prems" have leaf: "d \<or> ch = []"
    and sub: "files_are_leaves ch" "files_are_leaves nodes"
    by (simp_all add: files_are_leaves_def)
  show ?case
  proof (cases d)
    case True
    with 2 sub show ?thesis by simp
  next
    case False
    with leaf have "ch = []" by simp
    with False 2 sub show ?thesis by simp
  qed
qed

text \<open>
  C5. The navigation list \<open>changedFiles\<close> is a function of the file tree alone: the tree
  in display order, keeping the nodes that are files with a status, each turned into the
  entry with the same path, name, status and left and right paths. The display order
  goes below directories only; on a tree whose files have no children that is every
  node of the tree, parents first.
\<close>

theorem changedFiles_is_flattening:
  "changedFiles s = List.map_filter entry_of_node (display_order (fileTree s))
   \<and> (files_are_leaves (fileTree s) \<longrightarrow>
        changedFiles s = List.map_filter entry_of_node (all_nodes (fileTree s)))"
  by (simp add: changedFiles_def flattenTree_display_order display_order_all_nodes)

theorem changedFiles_is_flattening_witness:
  "files_are_leaves (fileTree (store loaded_ab))
   \<and> changedFiles (store loaded_ab)
       = List.map_filter entry_of_node (all_nodes (fileTree (store loaded_ab)))
   \<and> changedFiles (store loaded_ab) = [entry_a, entry_b]"
proof -
  have leaves: "files_are_leaves (fileTree (store loaded_ab))" by code_simp
  have val: "changedFiles (store loaded_ab) = [entry_a, entry_b]" by code_simp
  from changedFiles_is_flattening[of "store loaded_ab"] leaves val show ?thesis by blast
qed

subsection \<open>Toggling a view option\<close>

lemma put_get_other:
  "k \<noteq> key \<Longrightarrow> get_option k (put_option key v opts) = get_option k opts"
  by (cases k; cases key) simp_all

lemma put_get_same: "get_option key (put_option key v opts) = v"
  by (cases key) simp_all

lemma put_put_same: "put_option key v (put_option key w opts) = put_option key v opts"
  by (cases key) simp_all

lemma put_get_id: "put_option key (get_option key opts) opts = opts"
  by (cases key) simp_all

text \<open>
  C9. \<open>toggleViewOption\<close> is an involution that touches the named field only: twice on
  the same key gives the store back, once negates that option, leaves the three other
  options as they were and changes nothing of the store besides \<open>viewOptions\<close>.
\<close>

theorem toggleViewOption_involution:
  "toggleViewOption key (toggleViewOption key s) = s
   \<and> get_option key (viewOptions (toggleViewOption key s)) = (\<not> get_option key (viewOptions s))
   \<and> (\<forall>k. k \<noteq> key \<longrightarrow>
          get_option k (viewOptions (toggleViewOption key s)) = get_option k (viewOptions s))
   \<and> toggleViewOption key s = s\<lparr> viewOptions := viewOptions (toggleViewOption key s) \<rparr>"
  by (simp add: toggleViewOption_def put_get_other put_get_same put_put_same put_get_id)

theorem toggleViewOption_involution_witness:
  "Side_by_side \<noteq> Collapsed
   \<and> get_option Side_by_side (viewOptions (toggleViewOption Collapsed init_store))
       = get_option Side_by_side (viewOptions init_store)
   \<and> collapsed (viewOptions (toggleViewOption Collapsed init_store)) = False
   \<and> toggleViewOption Collapsed (toggleViewOption Collapsed init_store) = init_store"
  using toggleViewOption_involution [of Collapsed init_store]
  by (simp add: init_store_def toggleViewOption_def)

subsection \<open>Navigation without a current file\<close>

lemma findIndex_bounds: "- 1 \<le> findIndex P xs \<and> findIndex P xs < int (length xs)"
  by (induction xs) (auto simp: Let_def)

lemma findIndex_none: "findIndex P xs = - 1 \<longleftrightarrow> (\<forall>x \<in> set xs. \<not> P x)"
proof (induction xs)
  case Nil
  show ?case by simp
next
  case (Cons a xs)
  have "- 1 \<le> findIndex P xs" using findIndex_bounds[of P xs] by simp
  with Cons show ?case by (auto simp: Let_def)
qed

text \<open>
  C10. With no file selected, or with a selected file whose path is not in the list of
  changed files, \<open>currentFileIndex\<close> is \<open>-1\<close>; then \<open>selectNextFile\<close> selects the first
  changed file if there is one, and \<open>selectPrevFile\<close> changes nothing.
\<close>

theorem no_current_file:
  assumes "selectedFile s = None
           \<or> (\<exists>sel. selectedFile s = Some sel \<and> path sel \<notin> path ` set (changedFiles s))"
  shows "currentFileIndex s = - 1
         \<and> (changedFiles s \<noteq> [] \<longrightarrow>
              selectNextFile s = selectFile (Some (changedFiles s ! 0)) s
              \<and> selectedFile (selectNextFile s) = Some (changedFiles s ! 0))
         \<and> selectPrevFile s = s"
proof -
  have idx: "currentFileIndex s = - 1"
    using assms by (fastforce simp: currentFileIndex_def findIndex_none image_iff)
  then show ?thesis
    by (auto simp: selectNextFile_def selectPrevFile_def canGoNext_def canGoPrev_def
        at_index_def selectFile_def)
qed

theorem no_current_file_witness:
  "selectedFile ((store loaded_ab)\<lparr> selectedFile := Some entry_gone \<rparr>) = Some entry_gone
   \<and> path entry_gone
       \<notin> path ` set (changedFiles ((store loaded_ab)\<lparr> selectedFile := Some entry_gone \<rparr>))
   \<and> changedFiles ((store loaded_ab)\<lparr> selectedFile := Some entry_gone \<rparr>) \<noteq> []
   \<and> currentFileIndex ((store loaded_ab)\<lparr> selectedFile := Some entry_gone \<rparr>) = - 1
   \<and> selectedFile (selectNextFile ((store loaded_ab)\<lparr> selectedFile := Some entry_gone \<rparr>))
       = Some entry_a
   \<and> selectPrevFile ((store loaded_ab)\<lparr> selectedFile := Some entry_gone \<rparr>)
       = (store loaded_ab)\<lparr> selectedFile := Some entry_gone \<rparr>"
proof -
  let ?s = "(store loaded_ab)\<lparr> selectedFile := Some entry_gone \<rparr>"
  have sel: "selectedFile ?s = Some entry_gone" by simp
  have cf: "changedFiles ?s = [entry_a, entry_b]" by code_simp
  have absent: "path entry_gone \<notin> path ` set (changedFiles ?s)"
    unfolding cf by (simp add: entry_gone_def entry_a_def entry_b_def)
  have hyp: "selectedFile ?s = None
     \<or> (\<exists>sel. selectedFile ?s = Some sel \<and> path sel \<notin> path ` set (changedFiles ?s))"
    using sel absent by blast
  have ne: "changedFiles ?s \<noteq> []" by (simp add: cf)
  from no_current_file[OF hyp] ne
  have "currentFileIndex ?s = - 1"
    "selectedFile (selectNextFile ?s) = Some (changedFiles ?s ! 0)"
    "selectPrevFile ?s = ?s"
    by blast+
  with sel absent ne cf show ?thesis by simp
qed

section \<open>Properties of useDiff\<close>

subsection \<open>The availability probe\<close>

text \<open>
  C8. \<open>checkDeltaInstalled\<close> never fails: whether \<open>check_delta\<close> resolves or rejects, it
  returns a boolean and no error; the boolean is the resolved value, \<open>false\<close> when the tool
  is reported absent or the probe rejected; and it is what the store's \<open>deltaInstalled\<close>
  holds afterwards, nothing else of the store being changed.
\<close>

theorem checkDeltaInstalled_never_fails:
  "\<exists>b. fst (checkDeltaInstalled out st) = Inr b
       \<and> deltaInstalled (snd (checkDeltaInstalled out st)) = b
       \<and> snd (checkDeltaInstalled out st) = st\<lparr> deltaInstalled := b \<rparr>
       \<and> (out = Resolved False \<or> (\<exists>e. out = Rejected e) \<longrightarrow> b = False)
       \<and> (\<forall>v. out = Resolved v \<longrightarrow> b = v)"
  by (cases out) (auto simp: checkDeltaInstalled_def setDeltaInstalled_def)

theorem checkDeltaInstalled_never_fails_witness:
  "fst (checkDeltaInstalled (Rejected ''ipc closed'') init_store) = Inr False
   \<and> deltaInstalled (snd (checkDeltaInstalled (Rejected ''ipc closed'') init_store)) = False
   \<and> fst (checkDeltaInstalled (Resolved False) init_store) = Inr False
   \<and> fst (checkDeltaInstalled (Resolved True) init_store) = Inr True"
proof -
  from checkDeltaInstalled_never_fails[of "Rejected ''ipc closed''" init_store]
  have r: "fst (checkDeltaInstalled (Rejected ''ipc closed'') init_store) = Inr False"
    "deltaInstalled (snd (checkDeltaInstalled (Rejected ''ipc closed'') init_store)) = False"
    by auto
  from checkDeltaInstalled_never_fails[of "Resolved False" init_store]
  have a: "fst (checkDeltaInstalled (Resolved False) init_store) = Inr False"
    by auto
  from checkDeltaInstalled_never_fails[of "Resolved True" init_store]
  have p: "fst (checkDeltaInstalled (Resolved True) init_store) = Inr True"
    by auto
  from r a p show ?thesis by simp
qed

subsection \<open>Toggles\<close>

lemma toggle_of_eq:
  "toggle_of key y = refreshDiff (y\<lparr> store := toggleViewOption key (store y) \<rparr>)"
  by (cases key)
     (simp_all add: toggleSideBySide_def toggleLineNumbers_def toggleCollapsed_def
        toggleWhitespace_def)

lemma toggleViewOption_fields:
  "selectedFile (toggleViewOption key st) = selectedFile st"
  "viewOptions (toggleViewOption key st)
     = put_option key (\<not> get_option key (viewOptions st)) (viewOptions st)"
  by (simp_all add: toggleViewOption_def)

text \<open>
  C3. Each of the four toggles negates its option and leaves the other three. With a
  file selected it clears the current diff, sets the loading flag and issues exactly one
  \<open>get_diff\<close> request, for the paths of the selected file and with the options as just
  updated; the selection stays. With no file selected it issues no request and does
  nothing besides the toggle.
\<close>

theorem toggle_regenerates_selected:
  "viewOptions (store (toggle_of key y))
     = put_option key (\<not> get_option key (viewOptions (store y))) (viewOptions (store y))
   \<and> get_option key (viewOptions (store (toggle_of key y)))
       = (\<not> get_option key (viewOptions (store y)))
   \<and> (\<forall>k. k \<noteq> key \<longrightarrow>
          get_option k (viewOptions (store (toggle_of key y)))
            = get_option k (viewOptions (store y)))
   \<and> (selectedFile (store y) = None \<longrightarrow>
          diff_calls (toggle_of key y) = diff_calls y
          \<and> toggle_of key y = y\<lparr> store := toggleViewOption key (store y) \<rparr>)
   \<and> (\<forall>file. selectedFile (store y) = Some file \<longrightarrow>
          diff_calls (toggle_of key y)
            = diff_calls y
              @ [\<lparr> leftPath = left_path file, rightPath = right_path file,
                    options = viewOptions (store (toggle_of key y)) \<rparr>]
          \<and> selectedFile (store (toggle_of key y)) = Some file
          \<and> currentDiff (store (toggle_of key y)) = None
          \<and> isLoadingDiff (store (toggle_of key y)))"
proof (cases "selectedFile (store y)")
  case None
  then show ?thesis
    by (simp add: toggle_of_eq refreshDiff_def toggleViewOption_fields put_get_same
        put_get_other)
next
  case (Some f)
  then show ?thesis
    by (simp add: toggle_of_eq refreshDiff_def toggleViewOption_fields put_get_same
        put_get_other loadDiff_call_def Let_def get_diff_request_def selectFile_def
        setDiffLoading_def)
qed

theorem toggle_regenerates_selected_witness:
  "selectedFile (store loaded_ab) = Some entry_a
   \<and> diff_calls (toggleCollapsed loaded_ab)
       = diff_calls loaded_ab
         @ [\<lparr> leftPath = Some ''/l/a.txt'', rightPath = Some ''/r/a.txt'',
               options = \<lparr> side_by_side = True, line_numbers = True, collapsed = False,
                           show_whitespace = False \<rparr> \<rparr>]
   \<and> currentDiff (store (toggleCollapsed loaded_ab)) = None
   \<and> selectedFile (store init_sys) = None
   \<and> diff_calls (toggleWhitespace init_sys) = []
   \<and> Side_by_side \<noteq> Collapsed
   \<and> side_by_side (viewOptions (store (toggleCollapsed loaded_ab)))
       = side_by_side (viewOptions (store loaded_ab))"
proof -
  have sel: "selectedFile (store loaded_ab) = Some entry_a" by code_simp
  have opts: "viewOptions (store loaded_ab) = viewOptions init_store" by code_simp
  have none: "selectedFile (store init_sys) = None" "diff_calls init_sys = []"
    by (simp_all add: init_sys_def init_store_def)
  have ne: "Side_by_side \<noteq> Collapsed" by simp
  note t = toggle_regenerates_selected[of Collapsed loaded_ab, simplified]
  from t sel have
    calls: "diff_calls (toggleCollapsed loaded_ab)
       = diff_calls loaded_ab
         @ [\<lparr> leftPath = left_path entry_a, rightPath = right_path entry_a,
               options = viewOptions (store (toggleCollapsed loaded_ab)) \<rparr>]"
    and cur: "currentDiff (store (toggleCollapsed loaded_ab)) = None"
    by simp_all
  from t have vo: "viewOptions (store (toggleCollapsed loaded_ab))
      = (viewOptions (store loaded_ab))\<lparr> collapsed := \<not> collapsed (viewOptions (store loaded_ab)) \<rparr>"
    by simp
  from t ne have other: "get_option Side_by_side (viewOptions (store (toggleCollapsed loaded_ab)))
      = get_option Side_by_side (viewOptions (store loaded_ab))"
    by blast
  from toggle_regenerates_selected[of Show_whitespace init_sys, simplified] none
  have nocall: "diff_calls (toggleWhitespace init_sys) = []" by simp
  from sel calls cur none nocall ne other show ?thesis
    by (simp add: vo opts init_store_def entry_a_def)
qed

subsection \<open>A render that fails\<close>

text \<open>
  C4. When \<open>get_diff\<close> rejects, the handler of \<open>loadDiff\<close> stores the message in
  \<open>diffError\<close>, clears \<open>currentDiff\<close> and resets \<open>isLoadingDiff\<close>, and every other field
  of the store keeps its value: the file tree, the file list, the change counts, the
  selected file, and with the tree the list of changed files. For a render of the
  selected file that fails before anything else happens, this is the store as it was
  before the call, with these three fields set.
\<close>

theorem loadDiff_failure_frame:
  "loadDiff_settle (Rejected e) st
     = st\<lparr> diffError := Some e, isLoadingDiff := False, currentDiff := None \<rparr>
   \<and> diffError (loadDiff_settle (Rejected e) st) = Some e
   \<and> currentDiff (loadDiff_settle (Rejected e) st) = None
   \<and> isLoadingDiff (loadDiff_settle (Rejected e) st) = False
   \<and> fileTree (loadDiff_settle (Rejected e) st) = fileTree st
   \<and> files (loadDiff_settle (Rejected e) st) = files st
   \<and> totalChanges (loadDiff_settle (Rejected e) st) = totalChanges st
   \<and> addedCount (loadDiff_settle (Rejected e) st) = addedCount st
   \<and> deletedCount (loadDiff_settle (Rejected e) st) = deletedCount st
   \<and> modifiedCount (loadDiff_settle (Rejected e) st) = modifiedCount st
   \<and> selectedFile (loadDiff_settle (Rejected e) st) = selectedFile st
   \<and> changedFiles (loadDiff_settle (Rejected e) st) = changedFiles st
   \<and> (selectedFile (store y) = Some file \<longrightarrow>
        store (step (DiffSettled (length (diff_calls y)) (Rejected e)) (loadDiff_call file y))
          = (store y)\<lparr> diffError := Some e, isLoadingDiff := False, currentDiff := None \<rparr>)"
  by (auto simp: loadDiff_settle_def setDiffError_def changedFiles_def loadDiff_call_def
      Let_def selectFile_def setDiffLoading_def)

theorem loadDiff_failure_frame_witness:
  "selectedFile (store loaded_ab) = Some entry_a
   \<and> store (step (DiffSettled 1 (Rejected ''delta exited with 2''))
              (loadDiff_call entry_a loaded_ab))
       = (store loaded_ab)\<lparr> diffError := Some ''delta exited with 2'',
                             isLoadingDiff := False, currentDiff := None \<rparr>
   \<and> selectedFile (store (step (DiffSettled 1 (Rejected ''delta exited with 2''))
                            (loadDiff_call entry_a loaded_ab)))
       = Some entry_a"
proof -
  have sel: "selectedFile (store loaded_ab) = Some entry_a" by code_simp
  have n: "length (diff_calls loaded_ab) = 1" by code_simp
  from loadDiff_failure_frame[of "''delta exited with 2''" init_store loaded_ab entry_a] sel
  have "store (step (DiffSettled (length (diff_calls loaded_ab)) (Rejected ''delta exited with 2''))
              (loadDiff_call entry_a loaded_ab))
       = (store loaded_ab)\<lparr> diffError := Some ''delta exited with 2'',
                             isLoadingDiff := False, currentDiff := None \<rparr>"
    by blast
  with sel n show ?thesis by simp
qed

section \<open>Properties of the hunk scan\<close>

text \<open>\<open>js_includes\<close> is the substring test.\<close>

lemma startsWith_iff: "startsWith s p \<longleftrightarrow> (\<exists>b. s = p @ b)"
  by (induction s p rule: startsWith.induct) auto

lemma js_includes_iff: "js_includes s p \<longleftrightarrow> (\<exists>a b. s = a @ p @ b)"
proof (induction s)
  case Nil
  show ?case by (auto simp: startsWith_iff)
next
  case (Cons c cs)
  show ?case
  proof
    assume "js_includes (c # cs) p"
    then consider "startsWith (c # cs) p" | "js_includes cs p" by auto
    then show "\<exists>a b. c # cs = a @ p @ b"
    proof cases
      case 1
      then obtain b where "c # cs = p @ b" by (auto simp: startsWith_iff)
      then have "c # cs = [] @ p @ b" by simp
      then show ?thesis by blast
    next
      case 2
      with Cons obtain a b where "cs = a @ p @ b" by blast
      then have "c # cs = (c # a) @ p @ b" by simp
      then show ?thesis by blast
    qed
  next
    assume "\<exists>a b. c # cs = a @ p @ b"
    then obtain a b where ab: "c # cs = a @ p @ b" by blast
    show "js_includes (c # cs) p"
    proof (cases a)
      case Nil
      with ab have "startsWith (c # cs) p" by (auto simp: startsWith_iff)
      then show ?thesis by simp
    next
      case (Cons a0 as)
      with ab have "cs = as @ p @ b" by simp
      with Cons.IH have "js_includes cs p" by blast
      then show ?thesis by simp
    qed
  qed
qed

lemma scan_foldl:
  "foldl scan_line ([], False) (enumerate 0 ls)
     = (filter (hunk_start ls) [0..<length ls], ls \<noteq> [] \<and> kind_of (last ls) = ChangedLine)"
proof (induction ls rule: rev_induct)
  case Nil
  show ?case by simp
next
  case (snoc x xs)
  have same: "filter (hunk_start (xs @ [x])) [0..<length xs] = filter (hunk_start xs) [0..<length xs]"
    by (rule filter_cong) (auto simp: hunk_start_def nth_append)
  have lastx: "xs \<noteq> [] \<Longrightarrow> (xs @ [x]) ! (length xs - 1) = last xs"
    by (simp add: nth_append last_conv_nth)
  have en: "enumerate 0 (xs @ [x]) = enumerate 0 xs @ [(length xs, x)]"
    by (simp add: enumerate_append_eq)
  have step: "foldl scan_line ([], False) (enumerate 0 (xs @ [x]))
      = scan_line (filter (hunk_start xs) [0..<length xs],
                   xs \<noteq> [] \<and> kind_of (last xs) = ChangedLine) (length xs, x)"
    by (simp add: en snoc.IH)
  have flt: "filter (hunk_start (xs @ [x])) [0..<length (xs @ [x])]
      = filter (hunk_start xs) [0..<length xs]
        @ (if hunk_start (xs @ [x]) (length xs) then [length xs] else [])"
    by (simp add: same)
  have hs: "hunk_start (xs @ [x]) (length xs)
      = (kind_of x = Separator
         \<or> kind_of x = ChangedLine \<and> (xs = [] \<or> kind_of (last xs) \<noteq> ChangedLine))"
    using lastx by (cases "xs = []") (auto simp: hunk_start_def)
  show ?case
    unfolding step flt hs
    by (simp add: scan_line_def kind_of_def)
qed

lemma scan_lines_filter: "scan_lines ls = filter (hunk_start ls) [0..<length ls]"
  by (simp add: scan_lines_def scan_foldl)

lemma filter_pick: "filter (\<lambda>h. h = i) [0..<n] = (if i < n then [i] else [])"
  by (induction n) auto

lemma isHunkSep_start: "i < length ls \<Longrightarrow> isHunkSep (ls ! i) \<Longrightarrow> hunk_start ls i"
  by (simp add: hunk_start_def kind_of_def)

lemma changed_after_context_start:
  assumes "isChangedLine (ls ! i)" and "i = 0 \<or> \<not> isChangedLine (ls ! (i - 1))"
  shows "hunk_start ls i"
  using assms by (auto simp: hunk_start_def kind_of_def)

lemma run_filter:
  assumes run: "\<forall>k. i \<le> k \<and> k \<le> j \<longrightarrow> kind_of (ls ! k) = ChangedLine"
    and ij: "i \<le> j" and j: "j < length ls"
  shows "filter (\<lambda>h. i \<le> h \<and> h \<le> j) (filter (hunk_start ls) [0..<length ls])
         = (if i = 0 \<or> kind_of (ls ! (i - 1)) \<noteq> ChangedLine then [i] else [])"
proof -
  have inside: "i \<le> h \<and> h \<le> j \<and> hunk_start ls h \<longleftrightarrow> h = i \<and> hunk_start ls i" for h
  proof (cases "h = i")
    case True
    with ij show ?thesis by auto
  next
    case False
    show ?thesis
    proof (cases "i \<le> h \<and> h \<le> j")
      case True
      with False have "i \<le> h - 1 \<and> h - 1 \<le> j" "h \<noteq> 0" by auto
      with run True have "kind_of (ls ! (h - 1)) = ChangedLine" "kind_of (ls ! h) = ChangedLine"
        by blast+
      with \<open>h \<noteq> 0\<close> have "\<not> hunk_start ls h" by (simp add: hunk_start_def)
      with False show ?thesis by simp
    next
      case False
      with \<open>h \<noteq> i\<close> show ?thesis by blast
    qed
  qed
  have hi: "hunk_start ls i \<longleftrightarrow> i = 0 \<or> kind_of (ls ! (i - 1)) \<noteq> ChangedLine"
    using run ij by (simp add: hunk_start_def)
  have "filter (\<lambda>h. i \<le> h \<and> h \<le> j) (filter (hunk_start ls) [0..<length ls])
        = filter (\<lambda>h. h = i \<and> hunk_start ls i) [0..<length ls]"
    unfolding filter_filter by (rule filter_cong) (use inside in auto)
  also have "\<dots> = (if hunk_start ls i then filter (\<lambda>h. h = i) [0..<length ls] else [])"
    by simp
  also have "\<dots> = (if hunk_start ls i then [i] else [])"
    using ij j by (simp add: filter_pick)
  finally show ?thesis by (simp add: hi)
qed

text \<open>
  C7 as stated fails. The scan does not know which lines the diff changed: it takes a
  line for a changed line when its markup contains the text \<open>background\<close> or \<open>bg-\<close>, and
  for a separator when it contains three box-drawing characters, and the markup of a line
  contains the line's own text. Three unchanged lines of a stylesheet, with no separator
  and no changed line among them, give one hunk.
\<close>

theorem unchanged_lines_counterexample:
  "scan_lines [ascii ''.btn {'', ascii ''  background: red;'', ascii ''}''] = [1]
   \<and> hunkElements (findHunks (Some [ascii ''.btn {'', ascii ''  background: red;'', ascii ''}''])
        \<lparr> hunkElements = None, currentHunkIndex = 0 \<rparr>) = Some [1]"
  by code_simp

text \<open>
  C7, as the code has it. On lines none of whose markup contains three box-drawing
  characters, the text \<open>background\<close> or the text \<open>bg-\<close>, the scan records no hunk: the
  array \<open>hunks\<close> stays empty, and \<open>findHunks\<close> stores \<open>null\<close> for the hunk list.
\<close>

theorem no_changes_no_hunks:
  assumes "\<forall>l \<in> set ls. \<not> isHunkSep l \<and> \<not> isChangedLine l"
  shows "scan_lines ls = [] \<and> hunkElements (findHunks (Some ls) v) = None"
proof -
  have "\<not> hunk_start ls i" if "i < length ls" for i
    using assms that by (auto simp: hunk_start_def kind_of_def)
  then have "scan_lines ls = []"
    by (simp add: scan_lines_filter filter_empty_conv)
  then show ?thesis by (simp add: findHunks_def)
qed

theorem no_changes_no_hunks_witness:
  "\<not> isHunkSep (ascii ''ctx'') \<and> \<not> isChangedLine (ascii ''ctx'')
   \<and> \<not> isHunkSep (ascii ''more'') \<and> \<not> isChangedLine (ascii ''more'')
   \<and> scan_lines [ascii ''ctx'', ascii ''more''] = []
   \<and> hunkElements (findHunks (Some [ascii ''ctx'', ascii ''more''])
        \<lparr> hunkElements = Some [7], currentHunkIndex = 0 \<rparr>) = None"
proof -
  have c: "\<not> isHunkSep (ascii ''ctx'') \<and> \<not> isChangedLine (ascii ''ctx'')
     \<and> \<not> isHunkSep (ascii ''more'') \<and> \<not> isChangedLine (ascii ''more'')"
    by code_simp
  then have h: "\<forall>l \<in> set [ascii ''ctx'', ascii ''more'']. \<not> isHunkSep l \<and> \<not> isChangedLine l"
    by simp
  from no_changes_no_hunks[OF h] c show ?thesis by blast
qed

text \<open>
  C2, as the code has it. The scan knows a line by its markup alone: a line whose markup
  contains three box-drawing characters is a separator line whatever else it contains,
  the test for them coming first, and a changed line is a line whose markup contains the
  text \<open>background\<close> or \<open>bg-\<close> and not the separator pattern. The hunk starts are
  exactly, in order: every separator line, and every changed line that is the first line
  or follows a line that is not a changed line. So every line with the separator pattern
  is a hunk start; every line with \<open>background\<close> or \<open>bg-\<close> in its markup that is first or
  follows a line without them is a hunk start; and consecutive changed lines, none
  holding the separator pattern, give one hunk start, their first line, when the run
  begins there, and none when it is the tail of a longer run.
\<close>

theorem hunk_starts_by_kind:
  "scan_lines ls = filter (hunk_start ls) [0..<length ls]
   \<and> hunkElements (findHunks (Some ls) v)
       = (if scan_lines ls = [] then None else Some (scan_lines ls))
   \<and> (\<forall>i. i < length ls \<and> isHunkSep (ls ! i) \<longrightarrow> i \<in> set (scan_lines ls))
   \<and> (\<forall>i. i < length ls \<and> isChangedLine (ls ! i)
           \<and> (i = 0 \<or> \<not> isChangedLine (ls ! (i - 1)))
         \<longrightarrow> i \<in> set (scan_lines ls))
   \<and> (\<forall>i j. i \<le> j \<and> j < length ls
           \<and> (\<forall>k. i \<le> k \<and> k \<le> j \<longrightarrow> kind_of (ls ! k) = ChangedLine)
         \<longrightarrow> filter (\<lambda>h. i \<le> h \<and> h \<le> j) (scan_lines ls)
             = (if i = 0 \<or> kind_of (ls ! (i - 1)) \<noteq> ChangedLine then [i] else []))"
proof -
  have a: "scan_lines ls = filter (hunk_start ls) [0..<length ls]"
    by (rule scan_lines_filter)
  have b: "\<forall>i. i < length ls \<and> isHunkSep (ls ! i) \<longrightarrow> i \<in> set (scan_lines ls)"
    by (simp add: a isHunkSep_start)
  have c: "\<forall>i. i < length ls \<and> isChangedLine (ls ! i)
           \<and> (i = 0 \<or> \<not> isChangedLine (ls ! (i - 1)))
         \<longrightarrow> i \<in> set (scan_lines ls)"
    using changed_after_context_start[of ls] by (simp add: a)
  have d: "\<forall>i j. i \<le> j \<and> j < length ls
           \<and> (\<forall>k. i \<le> k \<and> k \<le> j \<longrightarrow> kind_of (ls ! k) = ChangedLine)
         \<longrightarrow> filter (\<lambda>h. i \<le> h \<and> h \<le> j) (scan_lines ls)
             = (if i = 0 \<or> kind_of (ls ! (i - 1)) \<noteq> ChangedLine then [i] else [])"
    unfolding a using run_filter[of _ _ ls] by blast
  have e: "hunkElements (findHunks (Some ls) v)
       = (if scan_lines ls = [] then None else Some (scan_lines ls))"
    by (simp add: findHunks_def Let_def)
  from a b c d e show ?thesis by blast
qed

lemma ex_kinds:
  "map kind_of ex_lines
     = [ContextLine, ChangedLine, ChangedLine, ContextLine, Separator, ChangedLine]"
  by code_simp

theorem hunk_starts_by_kind_witness:
  "(1::nat) \<le> 2 \<and> 2 < length ex_lines
   \<and> kind_of (ex_lines ! 1) = ChangedLine \<and> kind_of (ex_lines ! 2) = ChangedLine
   \<and> kind_of (ex_lines ! 0) \<noteq> ChangedLine
   \<and> filter (\<lambda>h. 1 \<le> h \<and> h \<le> 2) (scan_lines ex_lines) = [1]
   \<and> isHunkSep (ex_lines ! 4) \<and> 4 \<in> set (scan_lines ex_lines)"
proof -
  have n: "length ex_lines = 6" by (simp add: ex_lines_def)
  have k: "kind_of (ex_lines ! 0) = ContextLine" "kind_of (ex_lines ! 1) = ChangedLine"
    "kind_of (ex_lines ! 2) = ChangedLine" "kind_of (ex_lines ! 4) = Separator"
    using arg_cong[OF ex_kinds, of "\<lambda>ks. ks ! 0"] arg_cong[OF ex_kinds, of "\<lambda>ks. ks ! 1"]
      arg_cong[OF ex_kinds, of "\<lambda>ks. ks ! 2"] arg_cong[OF ex_kinds, of "\<lambda>ks. ks ! 4"]
    by (simp_all add: n)
  have sep: "isHunkSep (ex_lines ! 4)"
    using k(4) by (simp add: kind_of_def split: if_splits)
  have run: "\<forall>k. (1::nat) \<le> k \<and> k \<le> 2 \<longrightarrow> kind_of (ex_lines ! k) = ChangedLine"
  proof (intro allI impI)
    fix k :: nat assume "1 \<le> k \<and> k \<le> 2"
    then have "k = 1 \<or> k = 2" by auto
    with k show "kind_of (ex_lines ! k) = ChangedLine" by auto
  qed
  from hunk_starts_by_kind[of ex_lines] have
    h4: "\<forall>i j. i \<le> j \<and> j < length ex_lines
           \<and> (\<forall>k. i \<le> k \<and> k \<le> j \<longrightarrow> kind_of (ex_lines ! k) = ChangedLine)
         \<longrightarrow> filter (\<lambda>h. i \<le> h \<and> h \<le> j) (scan_lines ex_lines)
             = (if i = 0 \<or> kind_of (ex_lines ! (i - 1)) \<noteq> ChangedLine then [i] else [])"
    and h2: "\<forall>i. i < length ex_lines \<and> isHunkSep (ex_lines ! i) \<longrightarrow> i \<in> set (scan_lines ex_lines)"
    by blast+
  from run n have "filter (\<lambda>h. 1 \<le> h \<and> h \<le> 2) (scan_lines ex_lines)
      = (if (1::nat) = 0 \<or> kind_of (ex_lines ! (1 - 1)) \<noteq> ChangedLine then [1] else [])"
    using h4[rule_format, of 1 2] by simp
  with k have f: "filter (\<lambda>h. 1 \<le> h \<and> h \<le> 2) (scan_lines ex_lines) = [1]" by simp
  from h2 sep n have m: "4 \<in> set (scan_lines ex_lines)" by simp
  from n k f sep m show ?thesis by simp
qed

text \<open>
  C2 as stated fails: two consecutive lines, each with a background and so each a
  changed line, give two hunk starts when their text holds three box-drawing characters.
\<close>

theorem changed_run_counterexample:
  "isChangedLine ([banner_line, banner_line] ! 0)
   \<and> isChangedLine ([banner_line, banner_line] ! 1)
   \<and> scan_lines [banner_line, banner_line] = [0, 1]
   \<and> hunkElements (findHunks (Some [banner_line, banner_line])
        \<lparr> hunkElements = None, currentHunkIndex = 0 \<rparr>) = Some [0, 1]"
  by code_simp

section \<open>Properties of the running application\<close>

subsection \<open>Selecting a file by click and by key\<close>

text \<open>
  C6 fails on the click path. With \<open>a.txt\<close> selected and its diff shown, a click on
  \<open>b.txt\<close> issues two \<open>get_diff\<close> requests for \<open>b.txt\<close>: one from \<open>handleFileClick\<close>, which
  calls \<open>loadDiff\<close>, and one from the watcher of \<open>selectedFile\<close>, which calls \<open>loadDiff\<close>
  again. Selecting \<open>b.txt\<close> with the key \<open>j\<close> issues one.
\<close>

theorem click_issues_two_requests:
  "diff_calls (run [DiffSettled 0 (Resolved diff_a)] loaded_ab) = []
   \<and> diff_calls (run [DiffSettled 0 (Resolved diff_a), Click node_b] loaded_ab)
       = [get_diff_request entry_b init_store, get_diff_request entry_b init_store]
   \<and> diff_calls (run [DiffSettled 0 (Resolved diff_a), KeyJ] loaded_ab)
       = [get_diff_request entry_b init_store]"
  by code_simp

subsection \<open>Which result is on display\<close>

lemma currentFileIndex_bounds:
  "- 1 \<le> currentFileIndex st \<and> currentFileIndex st < int (length (changedFiles st))
   \<or> currentFileIndex st = - 1"
  using findIndex_bounds[of _ "changedFiles st"]
  by (auto simp: currentFileIndex_def split: option.splits)

lemma currentFileIndex_ge: "- 1 \<le> currentFileIndex st"
  using currentFileIndex_bounds[of st] by auto

lemma loadDiff_call_fields:
  "selectedFile (store (loadDiff_call f y)) = Some f"
  "currentDiff (store (loadDiff_call f y)) = None"
  "viewOptions (store (loadDiff_call f y)) = viewOptions (store y)"
  "fileTree (store (loadDiff_call f y)) = fileTree (store y)"
  "diff_calls (loadDiff_call f y) = diff_calls y @ [get_diff_request f (store y)]"
  "sel_index (loadDiff_call f y) = sel_index y"
  "last_settled (loadDiff_call f y) = last_settled y"
  "get_diff_request g (store (loadDiff_call f y)) = get_diff_request g (store y)"
  by (simp_all add: loadDiff_call_def Let_def selectFile_def setDiffLoading_def
      get_diff_request_def)

lemma changedFiles_loadDiff_call [simp]:
  "changedFiles (store (loadDiff_call f y)) = changedFiles (store y)"
  by (simp add: changedFiles_def loadDiff_call_fields)

lemma changedFiles_frame [simp]:
  "changedFiles (selectFile sel st) = changedFiles st"
  "changedFiles (toggleViewOption key st) = changedFiles st"
  "changedFiles (loadDiff_settle out st) = changedFiles st"
  "changedFiles (setDeltaInstalled b st) = changedFiles st"
  "changedFiles (setTreeError e st) = changedFiles st"
  "changedFiles (loadFileTree_call l r st) = changedFiles st"
  by (simp_all add: changedFiles_def selectFile_def toggleViewOption_def loadDiff_settle_def
      setDiff_def setDiffError_def setDeltaInstalled_def setTreeError_def
      loadFileTree_call_def setDirectories_def setTreeLoading_def split: outcome.splits)

lemma display_inv_loadDiff_call:
  assumes "\<forall>j. sel_index y = Some j \<longrightarrow>
             j < length (changedFiles (store y)) \<and> f = changedFiles (store y) ! j"
  shows "display_inv (loadDiff_call f y)"
  using assms by (simp add: display_inv_def loadDiff_call_fields)

lemma display_inv_watch:
  assumes "\<forall>j. sel_index y = Some j \<longrightarrow>
             j < length (changedFiles (store y))
             \<and> selectedFile (store y) = Some (changedFiles (store y) ! j)"
    and "selectedFile (store y) \<noteq> None"
  shows "display_inv (watch_selectedFile y)"
  using assms
  by (auto simp: watch_selectedFile_def intro!: display_inv_loadDiff_call split: option.splits)

lemma display_inv_click:
  assumes "display_inv y"
  shows "display_inv (step (Click node) y)"
proof (cases "showDirectoryPicker y \<or> node_is_dir node")
  case True
  with assms show ?thesis by (auto simp: handleFileClick_def)
next
  case False
  then show ?thesis
    by (auto simp: handleFileClick_def loadDiff_call_fields intro!: display_inv_watch)
qed

lemma display_inv_reselect:
  assumes "display_inv y" and "selectedFile (store y) = Some f"
  shows "display_inv (y\<lparr> store := selectFile (Some f) (store y) \<rparr>)"
  using assms by (auto simp: display_inv_def get_diff_request_def) (simp_all add: selectFile_def)

lemma display_inv_selected_element:
  assumes inv: "display_inv y"
    and j: "j < length (changedFiles (store y))"
    and st: "st = selectFile (Some (changedFiles (store y) ! j)) (store y)"
    and mounted: "\<not> showDirectoryPicker y"
  shows "display_inv (selected_element j (y\<lparr> store := st \<rparr>))"
proof (cases "sel_index y = Some j")
  case True
  with inv have "selectedFile (store y) = Some (changedFiles (store y) ! j)"
    by (simp add: display_inv_def)
  with inv have re: "display_inv (y\<lparr> store := st \<rparr>)"
    unfolding st by (rule display_inv_reselect)
  have same: "z\<lparr> sel_index := Some j \<rparr> = z" if "sel_index z = Some j" for z :: sys
    using that by (cases z) simp
  have "selected_element j (y\<lparr> store := st \<rparr>) = y\<lparr> store := st \<rparr>"
    using True same[of "y\<lparr> store := st \<rparr>"] by (simp add: selected_element_def)
  with re show ?thesis by simp
next
  case False
  have "display_inv (watch_selectedFile (y\<lparr> store := st, sel_index := Some j \<rparr>))"
    by (rule display_inv_watch) (simp_all add: st j, simp_all add: selectFile_def)
  with False mounted show ?thesis by (simp add: selected_element_def)
qed

lemma display_inv_keys:
  assumes inv: "display_inv y"
  shows "display_inv (step KeyJ y)" and "display_inv (step KeyK y)"
proof -
  let ?i = "currentFileIndex (store y)"
  let ?cf = "changedFiles (store y)"
  have lo: "- 1 \<le> ?i" by (rule currentFileIndex_ge)
  have hi: "?i < int (length ?cf) \<or> ?i = - 1"
    using currentFileIndex_bounds[of "store y"] by auto
  show "display_inv (step KeyJ y)"
  proof (cases "\<not> showDirectoryPicker y \<and> canGoNext (store y)")
    case False
    with inv show ?thesis by auto
  next
    case True
    then have j: "nat (?i + 1) < length ?cf" using lo by (auto simp: canGoNext_def)
    have "selectNextFile (store y) = selectFile (Some (?cf ! nat (?i + 1))) (store y)"
      using True lo by (simp add: selectNextFile_def canGoNext_def at_index_def)
    with inv j True show ?thesis by (simp add: display_inv_selected_element)
  qed
  show "display_inv (step KeyK y)"
  proof (cases "\<not> showDirectoryPicker y \<and> canGoPrev (store y)")
    case False
    with inv show ?thesis by auto
  next
    case True
    then have j: "nat (?i - 1) < length ?cf" using hi by (auto simp: canGoPrev_def)
    have "selectPrevFile (store y) = selectFile (Some (?cf ! nat (?i - 1))) (store y)"
      using True hi by (auto simp: selectPrevFile_def canGoPrev_def at_index_def)
    with inv j True show ?thesis by (simp add: display_inv_selected_element)
  qed
qed

lemma display_inv_toggle_of:
  assumes inv: "display_inv y"
  shows "display_inv (toggle_of key y)"
proof (cases "selectedFile (store y)")
  case None
  with inv have "diff_calls y = []" "currentDiff (store y) = None" "sel_index y = None"
    by (auto simp: display_inv_def)
  with None show ?thesis
    by (simp add: toggle_of_eq refreshDiff_def toggleViewOption_def display_inv_def)
next
  case (Some f)
  let ?y1 = "y\<lparr> store := toggleViewOption key (store y) \<rparr>"
  have "display_inv (loadDiff_call f ?y1)"
    by (rule display_inv_loadDiff_call) (use inv Some in \<open>auto simp: display_inv_def\<close>)
  with Some show ?thesis
    by (simp add: toggle_of_eq refreshDiff_def toggleViewOption_def)
qed

lemma display_inv_toggle:
  assumes inv: "display_inv y"
  shows "display_inv (step (Toggle key) y)"
  using inv display_inv_toggle_of[OF inv, of key] by simp

lemma loadDiff_settle_fields:
  "selectedFile (loadDiff_settle out st) = selectedFile st"
  "viewOptions (loadDiff_settle out st) = viewOptions st"
  "fileTree (loadDiff_settle out st) = fileTree st"
  "currentDiff (loadDiff_settle out st) = (case out of Resolved r \<Rightarrow> Some r | Rejected e \<Rightarrow> None)"
  by (cases out; simp add: loadDiff_settle_def setDiff_def setDiffError_def)+

lemma display_inv_settle:
  assumes inv: "display_inv y"
  shows "display_inv (step (DiffSettled 0 out) y)"
proof (cases "diff_calls y")
  case Nil
  with inv show ?thesis by simp
next
  case (Cons q rest)
  with inv obtain f where f: "selectedFile (store y) = Some f"
      "last (q # rest) = get_diff_request f (store y)"
    by (auto simp: display_inv_def)
  show ?thesis
    using inv f Cons
    by (auto simp: display_inv_def loadDiff_settle_fields changedFiles_def
        get_diff_request_def split: outcome.splits)
qed

lemma display_inv_picker:
  assumes inv: "display_inv y"
  shows "display_inv (step (LoadTree l r) y)" and "display_inv (step ShowPicker y)"
  using inv
  by (simp_all add: display_inv_def handleLoadDirs_def handleShowPicker_def
      loadFileTree_call_def setDirectories_def setTreeLoading_def changedFiles_def
      get_diff_request_def)

lemma display_inv_tree:
  assumes inv: "display_inv y" and mounted: "\<not> showDirectoryPicker y"
  shows "display_inv (step (TreeSettled out) y)"
proof (cases "tree_calls y > 0")
  case False
  with inv show ?thesis by simp
next
  case True
  let ?y0 = "y\<lparr> tree_calls := tree_calls y - 1 \<rparr>"
  show ?thesis
  proof (cases out)
    case (Rejected e)
    with True inv show ?thesis
      by (simp add: loadFileTree_settle_def display_inv_def setTreeError_def
          changedFiles_def get_diff_request_def)
  next
    case (Resolved res)
    let ?st = "setFileTree (tr_tree res) (tr_files res) (tr_total_changes res)
                    (tr_added res) (tr_deleted res) (tr_modified res) (store y)"
    let ?y1 = "?y0\<lparr> store := ?st, sel_index := None \<rparr>"
    have i1: "display_inv ?y1"
      using inv
      by (simp add: display_inv_def setFileTree_def get_diff_request_def)
    have m1: "\<not> showDirectoryPicker ?y1" using mounted by simp
    show ?thesis
    proof (cases "length (changedFiles ?st) > 0")
      case False
      then have "selectFirstFile ?st = ?st" by (simp add: selectFirstFile_def)
      with False Resolved have "loadFileTree_settle out ?y0 = ?y1"
        by (simp add: loadFileTree_settle_def Let_def)
      with i1 True show ?thesis by simp
    next
      case sel: True
      let ?y2 = "?y1\<lparr> store := selectFirstFile ?st \<rparr>"
      have sf: "selectFirstFile ?st = selectFile (Some (changedFiles ?st ! 0)) ?st"
        using sel by (simp add: selectFirstFile_def at_index_def)
      have i2: "display_inv (selected_element 0 ?y2)"
        using display_inv_selected_element[OF i1 _ _ m1, of 0] sel by (simp add: sf)
      from sel Resolved have "loadFileTree_settle out ?y0 = ?y1
          \<or> loadFileTree_settle out ?y0 = selected_element 0 ?y2"
        by (simp add: loadFileTree_settle_def Let_def)
      with i1 i2 True show ?thesis by auto
    qed
  qed
qed

lemma display_inv_check:
  assumes inv: "display_inv y"
  shows "display_inv (step CheckDelta y)" and "display_inv (step (DeltaSettled out) y)"
  using inv
  by (auto simp: display_inv_def checkDeltaInstalled_def setDeltaInstalled_def
      changedFiles_def get_diff_request_def split: outcome.splits)

lemma display_inv_step:
  assumes "display_inv y" and "oldest_first e"
    and "tree_result e \<longrightarrow> \<not> showDirectoryPicker y"
  shows "display_inv (step e y)"
proof (cases e)
  case (DiffSettled i out)
  with assms(2) have "i = 0" by simp
  with DiffSettled assms(1) show ?thesis using display_inv_settle by simp
next
  case (TreeSettled out)
  with assms(1,3) show ?thesis using display_inv_tree by simp
qed (use assms(1) display_inv_click display_inv_keys display_inv_toggle display_inv_picker
      display_inv_check in \<open>simp_all del: step.simps\<close>)

lemma display_inv_init: "display_inv init_sys"
  by (simp add: display_inv_def init_sys_def init_store_def)

lemma display_inv_run:
  assumes "list_all oldest_first evs" and "trees_arrive_mounted evs y" and "display_inv y"
  shows "display_inv (run evs y)"
  using assms
proof (induction evs arbitrary: y)
  case Nil
  then show ?case by (simp add: run_def)
next
  case (Cons e evs)
  from Cons.prems have "display_inv (step e y)"
    by (intro display_inv_step) (auto split: if_splits)
  with Cons.prems have "display_inv (run evs (step e y))"
    by (intro Cons.IH) simp_all
  then show ?case by (simp add: run_def)
qed

text \<open>
  C1 as stated fails; the code has no request token. With the render of \<open>a.txt\<close> pending,
  the key \<open>j\<close> selects \<open>b.txt\<close>; when the render of \<open>a.txt\<close> then completes, its result is
  stored and displayed while \<open>b.txt\<close> is the selected file and its own render is still
  pending. And when the render of \<open>b.txt\<close> completes first and that of \<open>a.txt\<close> last, the
  diff of \<open>a.txt\<close> stays on display for \<open>b.txt\<close> with nothing pending.
\<close>

theorem stale_diff_counterexample:
  "selectedFile (store (run [KeyJ, DiffSettled 0 (Resolved diff_a)] loaded_ab)) = Some entry_b
   \<and> displayed_diff (store (run [KeyJ, DiffSettled 0 (Resolved diff_a)] loaded_ab))
       = Some diff_a
   \<and> last_settled (run [KeyJ, DiffSettled 0 (Resolved diff_a)] loaded_ab)
       = Some (get_diff_request entry_a init_store, Resolved diff_a)
   \<and> diff_calls (run [KeyJ, DiffSettled 0 (Resolved diff_a)] loaded_ab)
       = [get_diff_request entry_b init_store]
   \<and> selectedFile (store (run [KeyJ, DiffSettled 1 (Resolved diff_b),
                               DiffSettled 0 (Resolved diff_a)] loaded_ab)) = Some entry_b
   \<and> displayed_diff (store (run [KeyJ, DiffSettled 1 (Resolved diff_b),
                                 DiffSettled 0 (Resolved diff_a)] loaded_ab)) = Some diff_a
   \<and> diff_calls (run [KeyJ, DiffSettled 1 (Resolved diff_b),
                       DiffSettled 0 (Resolved diff_a)] loaded_ab) = []"
  by code_simp

text \<open>
  Why the diff view has to be mounted when a tree arrives. With the render of \<open>a.txt\<close>
  pending the picker is reopened, a second comparison is started and the picker is
  reopened once more; the second tree, with \<open>b.txt\<close> first, arrives while the diff view
  is unmounted: \<open>selectFirstFile\<close> selects \<open>b.txt\<close> and no watcher asks for its diff. The
  render of \<open>a.txt\<close>, the only one and so completing in order, is then stored for
  \<open>b.txt\<close> with nothing pending.
\<close>

lemma unmounted_tree_result_example:
  "selectedFile (store (run [ShowPicker, LoadTree ''/l'' ''/r2'', ShowPicker,
                             TreeSettled (Resolved tree_ba),
                             DiffSettled 0 (Resolved diff_a)] loaded_ab)) = Some entry_b
   \<and> currentDiff (store (run [ShowPicker, LoadTree ''/l'' ''/r2'', ShowPicker,
                              TreeSettled (Resolved tree_ba),
                              DiffSettled 0 (Resolved diff_a)] loaded_ab)) = Some diff_a
   \<and> diff_calls (run [ShowPicker, LoadTree ''/l'' ''/r2'', ShowPicker,
                       TreeSettled (Resolved tree_ba),
                       DiffSettled 0 (Resolved diff_a)] loaded_ab) = []
   \<and> \<not> trees_arrive_mounted
         [LoadTree ''/l'' ''/r'', TreeSettled (Resolved tree_ab), ShowPicker,
          LoadTree ''/l'' ''/r2'', ShowPicker, TreeSettled (Resolved tree_ba),
          DiffSettled 0 (Resolved diff_a)] init_sys"
  by code_simp

text \<open>
  C1, as the code has it. A completing render stores its result whatever file is
  selected. What holds is: if renders complete in the order of their requests, and
  every tree arrives while the diff view is mounted (the directory picker hidden), then
  whenever no render is pending, a stored diff, and so a displayed one, is the result
  delivered for the request made last, and that request was made for the selected file
  with the current options.
\<close>

theorem in_order_display_is_selected:
  assumes "list_all oldest_first evs"
    and "trees_arrive_mounted evs init_sys"
    and "diff_calls (run evs init_sys) = []"
    and "currentDiff (store (run evs init_sys)) = Some r"
  shows "\<exists>f. selectedFile (store (run evs init_sys)) = Some f
             \<and> last_settled (run evs init_sys)
                 = Some (\<lparr> leftPath = left_path f, rightPath = right_path f,
                            options = viewOptions (store (run evs init_sys)) \<rparr>,
                         Resolved r)"
proof -
  have "display_inv (run evs init_sys)"
    using assms(1,2) display_inv_init by (rule display_inv_run)
  with assms(3,4) show ?thesis
    by (simp add: display_inv_def get_diff_request_def)
qed

theorem in_order_display_is_selected_witness:
  "list_all oldest_first
     [LoadTree ''/l'' ''/r'', TreeSettled (Resolved tree_ab), ShowPicker,
      LoadTree ''/l'' ''/r'', TreeSettled (Resolved tree_ab), KeyJ,
      DiffSettled 0 (Resolved diff_a), DiffSettled 0 (Resolved diff_a),
      DiffSettled 0 (Resolved diff_b)]
   \<and> trees_arrive_mounted
     [LoadTree ''/l'' ''/r'', TreeSettled (Resolved tree_ab), ShowPicker,
      LoadTree ''/l'' ''/r'', TreeSettled (Resolved tree_ab), KeyJ,
      DiffSettled 0 (Resolved diff_a), DiffSettled 0 (Resolved diff_a),
      DiffSettled 0 (Resolved diff_b)] init_sys
   \<and> diff_calls (run
     [LoadTree ''/l'' ''/r'', TreeSettled (Resolved tree_ab), ShowPicker,
      LoadTree ''/l'' ''/r'', TreeSettled (Resolved tree_ab), KeyJ,
      DiffSettled 0 (Resolved diff_a), DiffSettled 0 (Resolved diff_a),
      DiffSettled 0 (Resolved diff_b)] init_sys) = []
   \<and> currentDiff (store (run
     [LoadTree ''/l'' ''/r'', TreeSettled (Resolved tree_ab), ShowPicker,
      LoadTree ''/l'' ''/r'', TreeSettled (Resolved tree_ab), KeyJ,
      DiffSettled 0 (Resolved diff_a), DiffSettled 0 (Resolved diff_a),
      DiffSettled 0 (Resolved diff_b)] init_sys)) = Some diff_b
   \<and> selectedFile (store (run
     [LoadTree ''/l'' ''/r'', TreeSettled (Resolved tree_ab), ShowPicker,
      LoadTree ''/l'' ''/r'', TreeSettled (Resolved tree_ab), KeyJ,
      DiffSettled 0 (Resolved diff_a), DiffSettled 0 (Resolved diff_a),
      DiffSettled 0 (Resolved diff_b)] init_sys)) = Some entry_b
   \<and> (\<exists>f opts. last_settled (run
     [LoadTree ''/l'' ''/r'', TreeSettled (Resolved tree_ab), ShowPicker,
      LoadTree ''/l'' ''/r'', TreeSettled (Resolved tree_ab), KeyJ,
      DiffSettled 0 (Resolved diff_a), DiffSettled 0 (Resolved diff_a),
      DiffSettled 0 (Resolved diff_b)] init_sys)
         = Some (\<lparr> leftPath = left_path f, rightPath = right_path f, options = opts \<rparr>,
                 Resolved diff_b)
        \<and> f = entry_b)"
proof -
  let ?evs = "[LoadTree ''/l'' ''/r'', TreeSettled (Resolved tree_ab), ShowPicker,
      LoadTree ''/l'' ''/r'', TreeSettled (Resolved tree_ab), KeyJ,
      DiffSettled 0 (Resolved diff_a), DiffSettled 0 (Resolved diff_a),
      DiffSettled 0 (Resolved diff_b)]"
  have h1: "list_all oldest_first ?evs" by simp
  have h2: "trees_arrive_mounted ?evs init_sys" by code_simp
  have h3: "diff_calls (run ?evs init_sys) = []" by code_simp
  have h4: "currentDiff (store (run ?evs init_sys)) = Some diff_b" by code_simp
  have sel: "selectedFile (store (run ?evs init_sys)) = Some entry_b" by code_simp
  from in_order_display_is_selected[OF h1 h2 h3 h4] sel
  have "\<exists>f opts. last_settled (run ?evs init_sys)
         = Some (\<lparr> leftPath = left_path f, rightPath = right_path f, options = opts \<rparr>,
                 Resolved diff_b)
        \<and> f = entry_b"
    by auto
  with h1 h2 h3 h4 sel show ?thesis by blast
qed

end
